theory Spec2Isabelle
  imports Main "HOL-Library.Multiset"
begin

section \<open>The job queue of jobqueue.c\<close>

text \<open>
  The queue is shared by one owning thread and \<open>nthreads\<close> workers. Every read and
  write of \<open>todo\<close>, \<open>acceptingJobs\<close> and \<open>threadsStopped\<close> in \<open>jobqueue.c\<close> happens
  between a \<open>pthread_mutex_lock\<close> and the next \<open>pthread_mutex_unlock\<close> or
  \<open>pthread_cond_wait\<close> on the one mutex \<open>lock\<close>, so the code between two such calls
  is one step of the thread that runs it. Each function below is the code of one such
  stretch; it returns the pthread calls it makes, in order, and the queue it leaves.
  The pthread calls are taken to return 0: on any other status the source prints the
  status and leaves the process (\<open>ERR\<close>, \<open>eprintf\<close>).
\<close>

subsection \<open>Data\<close>

datatype cond = wakeWorker | wakeMain

datatype event = Lock | Unlock | Signal cond | Broadcast cond | Wait cond

datatype error =
    Died string            \<comment> \<open>\<open>die\<close>: message on stderr, \<open>exit(EXIT_FAILURE)\<close>\<close>
  | Assertion_failed       \<comment> \<open>a failed \<open>assert\<close>\<close>
  | Null_store             \<comment> \<open>a store through a null pointer (undefined in C)\<close>
  | Bad_pointer            \<comment> \<open>use of a pointer to no object of the right kind (undefined in C)\<close>

text \<open>
  \<open>struct Job\<close>: the link \<open>next\<close> is the tail of the list the item stands in. The
  job function receives the pointer \<open>param\<close> and works on the caller's memory \<open>'m\<close>;
  its \<open>int\<close> result is dropped by the worker.
\<close>

record ('p, 'm) Job =
  param :: 'p
  jobfun :: "'p \<Rightarrow> 'm \<Rightarrow> 'm"

text \<open>
  \<open>struct JobQueue\<close>. \<open>thread\<close> is the array of worker handles: \<open>None\<close> is the null
  pointer, \<open>Some hs\<close> holds the handles stored so far.
\<close>

record ('p, 'm) JobQueue =
  todo :: "('p, 'm) Job list"
  acceptingJobs :: int
  threadsStopped :: int
  nthreads :: int
  thread :: "nat list option"

subsection \<open>Allocation check (misc.c)\<close>

text \<open>The result of \<open>malloc\<close> is \<open>None\<close> for the null pointer.\<close>

fun checkmem :: "'a option \<Rightarrow> error + 'a" where
  "checkmem None = Inl (Died ''allocation error'')"
| "checkmem (Some obj) = Inr obj"

subsection \<open>JobQueue_new\<close>

text \<open>
  The loop \<open>for(i = 0; i < nthreads; ++i)\<close> that creates the workers: each turn stores
  the new handle in \<open>jq->thread[i]\<close>.
\<close>

fun launch :: "nat list \<Rightarrow> ('p, 'm) JobQueue \<Rightarrow> error + ('p, 'm) JobQueue" where
  "launch [] jq = Inr jq"
| "launch (i # is) jq =
     (case thread jq of
        None \<Rightarrow> Inl Null_store
      | Some hs \<Rightarrow> launch is (jq\<lparr>thread := Some (hs @ [i])\<rparr>))"

text \<open>
  \<open>m_jq\<close> and \<open>m_thread\<close> are the results of the two calls of \<open>malloc\<close>. Only the
  first is passed to \<open>checkmem\<close>.
\<close>

definition JobQueue_new ::
  "unit option \<Rightarrow> unit option \<Rightarrow> int \<Rightarrow> error + ('p, 'm) JobQueue" where
  "JobQueue_new m_jq m_thread n =
     (case checkmem m_jq of
        Inl e \<Rightarrow> Inl e
      | Inr _ \<Rightarrow>
          launch [0..<nat n]
            \<lparr>todo = [], acceptingJobs = 1, threadsStopped = 0, nthreads = n,
             thread = map_option (\<lambda>_. []) m_thread\<rparr>)"

subsection \<open>JobQueue_addJob\<close>

definition JobQueue_addJob ::
  "unit option \<Rightarrow> ('p \<Rightarrow> 'm \<Rightarrow> 'm) \<Rightarrow> 'p \<Rightarrow> ('p, 'm) JobQueue
     \<Rightarrow> error + (event list \<times> ('p, 'm) JobQueue)" where
  "JobQueue_addJob m_job f p jq =
     (case checkmem m_job of
        Inl e \<Rightarrow> Inl e
      | Inr _ \<Rightarrow>
          Inr ([Lock, Signal wakeWorker, Unlock],
               jq\<lparr>todo := \<lparr>param = p, jobfun = f\<rparr> # todo jq\<rparr>))"

subsection \<open>threadfun\<close>

text \<open>
  Where a worker stands: about to lock at the top of \<open>for(;;)\<close>, inside
  \<open>pthread_cond_wait(&jq->wakeWorker, &jq->lock)\<close>, holding a job it has taken off the
  list (the mutex released), or returned.
\<close>

datatype ('p, 'm) worker = W_lock | W_wait | W_job "('p, 'm) Job" | W_exit

text \<open>
  The code a worker runs with the mutex held, from the test of the inner \<open>while\<close> to
  the next release of the mutex: it waits, or leaves the loop and counts itself
  stopped, or takes the head of the list. The \<open>assert\<close> before \<open>break\<close> is compiled
  in (the unit test refuses \<open>NDEBUG\<close>).
\<close>

definition threadfun_locked ::
  "('p, 'm) JobQueue \<Rightarrow> error + (event list \<times> ('p, 'm) worker \<times> ('p, 'm) JobQueue)" where
  "threadfun_locked jq =
     (case todo jq of
        [] \<Rightarrow>
          if acceptingJobs jq = 1 then Inr ([Wait wakeWorker], W_wait, jq)
          else if acceptingJobs jq \<noteq> 0 then Inl Assertion_failed
          else
            let jq' = jq\<lparr>threadsStopped := threadsStopped jq + 1\<rparr>
            in Inr ((if threadsStopped jq' = nthreads jq' then [Signal wakeMain] else [])
                      @ [Unlock], W_exit, jq')
      | job # rest \<Rightarrow> Inr ([Unlock], W_job job, jq\<lparr>todo := rest\<rparr>))"

subsection \<open>JobQueue_waitOnJobs\<close>

text \<open>
  Where the owning thread stands: free to call \<open>JobQueue_addJob\<close> or
  \<open>JobQueue_waitOnJobs\<close>, inside \<open>pthread_cond_wait(&jq->wakeMain, &jq->lock)\<close>, or
  back from \<open>JobQueue_waitOnJobs\<close>.
\<close>

datatype main_pc = M_ready | M_wait | M_done

text \<open>The \<open>while\<close> loop of \<open>JobQueue_waitOnJobs\<close>, from its test, the mutex held.\<close>

definition waitOnJobs_while ::
  "('p, 'm) JobQueue \<Rightarrow> event list \<times> main_pc \<times> ('p, 'm) JobQueue" where
  "waitOnJobs_while jq =
     (if threadsStopped jq < nthreads jq
      then ([Broadcast wakeWorker, Wait wakeMain], M_wait, jq)
      else ([Unlock], M_done, jq))"

definition JobQueue_waitOnJobs ::
  "('p, 'm) JobQueue \<Rightarrow> event list \<times> main_pc \<times> ('p, 'm) JobQueue" where
  "JobQueue_waitOnJobs jq =
     (case waitOnJobs_while (jq\<lparr>acceptingJobs := 0\<rparr>) of
        (es, pc, jq') \<Rightarrow> (Lock # es, pc, jq'))"

subsection \<open>The threads together\<close>

text \<open>
  The state of the program: the queue, where each worker and the owning thread stand,
  the caller's memory, and two logs (newest first): the jobs handed to
  \<open>JobQueue_addJob\<close> and the jobs whose function a worker has called.
\<close>

record ('p, 'm) sys =
  queue :: "('p, 'm) JobQueue"
  workers :: "('p, 'm) worker list"
  main :: main_pc
  mem :: 'm
  submitted :: "('p, 'm) Job list"
  invoked :: "('p, 'm) Job list"

text \<open>
  \<open>JobQueue_new\<close> as the first action of the program. The workers it creates start at
  the top of \<open>threadfun\<close>; what they do before \<open>JobQueue_new\<close> returns touches nothing
  \<open>JobQueue_new\<close> still writes.
\<close>

definition start ::
  "unit option \<Rightarrow> unit option \<Rightarrow> int \<Rightarrow> 'm \<Rightarrow> error + ('p, 'm) sys" where
  "start m_jq m_thread n m0 =
     (case JobQueue_new m_jq m_thread n of
        Inl e \<Rightarrow> Inl e
      | Inr jq \<Rightarrow>
          Inr \<lparr>queue = jq,
               workers = map (\<lambda>_. W_lock) (case thread jq of None \<Rightarrow> [] | Some hs \<Rightarrow> hs),
               main = M_ready, mem = m0, submitted = [], invoked = []\<rparr>)"

text \<open>
  One step of one thread. \<open>Worker i\<close>: worker \<open>i\<close> runs to its next release of the
  mutex, or calls the function of the job it holds and frees the job. A waiting worker
  may be scheduled at any time, since \<open>pthread_cond_wait\<close> may return without a signal.
  \<open>AddJob\<close>, \<open>WaitOnJobs\<close>: the owning thread calls the function (the source's test
  program and header comment: jobs are pushed by the main program, which then waits).
  \<open>Woken\<close>: the owning thread's \<open>pthread_cond_wait\<close> returns. A thread scheduled where
  it cannot move leaves the state as it is. A job function is run in one step, on the
  caller's memory only: it does not call the queue's functions. A step that ends the
  process (\<open>Inl\<close>) ends the run.
\<close>

datatype ('p, 'm) label =
    Worker nat
  | AddJob "unit option" "'p \<Rightarrow> 'm \<Rightarrow> 'm" 'p
  | WaitOnJobs
  | Woken

definition worker_step :: "nat \<Rightarrow> ('p, 'm) sys \<Rightarrow> error + ('p, 'm) sys" where
  "worker_step i s =
     (if i < length (workers s) then
        (case workers s ! i of
           W_job job \<Rightarrow>
             Inr (s\<lparr>workers := (workers s)[i := W_lock],
                    mem := jobfun job (param job) (mem s),
                    invoked := job # invoked s\<rparr>)
         | W_exit \<Rightarrow> Inr s
         | _ \<Rightarrow>
             (case threadfun_locked (queue s) of
                Inl e \<Rightarrow> Inl e
              | Inr (es, w, jq) \<Rightarrow> Inr (s\<lparr>queue := jq, workers := (workers s)[i := w]\<rparr>)))
      else Inr s)"

fun step :: "('p, 'm) label \<Rightarrow> ('p, 'm) sys \<Rightarrow> error + ('p, 'm) sys" where
  "step (Worker i) s = worker_step i s"
| "step (AddJob m_job f p) s =
     (if main s = M_ready then
        (case JobQueue_addJob m_job f p (queue s) of
           Inl e \<Rightarrow> Inl e
         | Inr (es, jq) \<Rightarrow>
             Inr (s\<lparr>queue := jq, submitted := \<lparr>param = p, jobfun = f\<rparr> # submitted s\<rparr>))
      else Inr s)"
| "step WaitOnJobs s =
     (if main s = M_ready then
        (case JobQueue_waitOnJobs (queue s) of
           (es, pc, jq) \<Rightarrow> Inr (s\<lparr>queue := jq, main := pc\<rparr>))
      else Inr s)"
| "step Woken s =
     (if main s = M_wait then
        (case waitOnJobs_while (queue s) of
           (es, pc, jq) \<Rightarrow> Inr (s\<lparr>queue := jq, main := pc\<rparr>))
      else Inr s)"

fun run :: "('p, 'm) label list \<Rightarrow> ('p, 'm) sys \<Rightarrow> error + ('p, 'm) sys" where
  "run [] s = Inr s"
| "run (l # ls) s = (case step l s of Inl e \<Rightarrow> Inl e | Inr s' \<Rightarrow> run ls s')"

subsection \<open>Job_free and JobQueue_free\<close>

text \<open>
  Teardown follows the \<open>next\<close> pointers and frees cell by cell, so here the items are
  cells of a store: a \<open>struct Job\<close> with its \<open>next\<close> pointer, the array of worker
  handles, and a \<open>struct JobQueue\<close> with its pointers \<open>todo\<close> and \<open>thread\<close>. A pointer
  is \<open>None\<close> when null. The three \<open>pthread_..._destroy\<close> calls that come first in
  \<open>JobQueue_free\<close> do not touch the store.
\<close>

type_synonym addr = nat

datatype ('p, 'm) obj =
    Job_obj "addr option" "('p, 'm) Job"
  | Thread_obj
  | Queue_obj "addr option" "addr option"

type_synonym ('p, 'm) heap = "addr \<Rightarrow> ('p, 'm) obj option"

text \<open>\<open>free\<close> of the C library: nothing happens on the null pointer.\<close>

fun free :: "addr option \<Rightarrow> ('p, 'm) heap \<Rightarrow> error + ('p, 'm) heap" where
  "free None h = Inr h"
| "free (Some a) h = (case h a of None \<Rightarrow> Inl Bad_pointer | Some _ \<Rightarrow> Inr (h(a := None)))"

text \<open>
  \<open>Job_free\<close> calls itself on \<open>job->next\<close> before it frees \<open>job\<close>. The value \<open>None\<close>
  stands for a call that does not return.
\<close>

partial_function (option) Job_free ::
  "addr option \<Rightarrow> ('p, 'm) heap \<Rightarrow> (error + ('p, 'm) heap) option" where
  "Job_free job h =
     (case job of
        None \<Rightarrow> Some (Inr h)
      | Some a \<Rightarrow>
          (case h a of
             Some (Job_obj nxt _) \<Rightarrow>
               Option.bind (Job_free nxt h)
                 (\<lambda>r. case r of Inl e \<Rightarrow> Some (Inl e) | Inr h' \<Rightarrow> Some (free (Some a) h'))
           | _ \<Rightarrow> Some (Inl Bad_pointer)))"

fun JobQueue_free ::
  "addr option \<Rightarrow> ('p, 'm) heap \<Rightarrow> (error + ('p, 'm) heap) option" where
  "JobQueue_free None h = Some (Inl Assertion_failed)"
| "JobQueue_free (Some jq) h =
     (case h jq of
        Some (Queue_obj td th) \<Rightarrow>
          Option.bind (Job_free td h)
            (\<lambda>r. case r of
                   Inl e \<Rightarrow> Some (Inl e)
                 | Inr h1 \<Rightarrow>
                     (case free th h1 of
                        Inl e \<Rightarrow> Some (Inl e)
                      | Inr h2 \<Rightarrow> Some (free (Some jq) h2)))
      | _ \<Rightarrow> Some (Inl Bad_pointer))"

text \<open>
  \<open>linked h p as\<close>: from \<open>p\<close> the \<open>next\<close> pointers lead through the cells \<open>as\<close>, in
  this order, to the null pointer. Such a list is finite and has no cycle.
\<close>

fun linked :: "('p, 'm) heap \<Rightarrow> addr option \<Rightarrow> addr list \<Rightarrow> bool" where
  "linked h p [] = (p = None)"
| "linked h p (a # as) =
     (p = Some a \<and> (case h a of Some (Job_obj nxt _) \<Rightarrow> linked h nxt as | _ \<Rightarrow> False))"

subsection \<open>Bookkeeping for the proofs\<close>

text \<open>The job a worker holds, the jobs all workers hold, the number of workers that returned.\<close>

fun in_hand :: "('p, 'm) worker \<Rightarrow> ('p, 'm) Job list" where
  "in_hand (W_job job) = [job]"
| "in_hand _ = []"

definition held :: "('p, 'm) worker list \<Rightarrow> ('p, 'm) Job list" where
  "held ws = concat (map in_hand ws)"

definition stopped :: "('p, 'm) worker list \<Rightarrow> nat" where
  "stopped ws = length (filter (\<lambda>w. w = W_exit) ws)"

text \<open>What holds in every state the program reaches from \<open>JobQueue_new n\<close>.\<close>

definition inv :: "int \<Rightarrow> 'm \<Rightarrow> ('p, 'm) sys \<Rightarrow> bool" where
  "inv n m0 s \<longleftrightarrow>
     nthreads (queue s) = n \<and>
     length (workers s) = nat n \<and>
     threadsStopped (queue s) = int (stopped (workers s)) \<and>
     (acceptingJobs (queue s) = (if main s = M_ready then 1 else 0)) \<and>
     (0 < threadsStopped (queue s) \<longrightarrow> main s \<noteq> M_ready) \<and>
     (0 < n \<and> threadsStopped (queue s) = n \<longrightarrow> todo (queue s) = []) \<and>
     (main s = M_done \<longrightarrow> n \<le> threadsStopped (queue s)) \<and>
     mset (submitted s) = mset (todo (queue s)) + mset (held (workers s)) + mset (invoked s) \<and>
     mem s = foldr (\<lambda>job. jobfun job (param job)) (invoked s) m0"

subsection \<open>A test run\<close>

text \<open>
  The job of the unit test in \<open>jobqueue.c\<close> (\<open>param->result = param->arg * param->arg\<close>),
  over the integers: the memory maps a pointer to the pair of \<open>arg\<close> and \<open>result\<close>.
\<close>

definition jobfunc :: "nat \<Rightarrow> (nat \<Rightarrow> int \<times> int) \<Rightarrow> (nat \<Rightarrow> int \<times> int)" where
  "jobfunc p m = m(p := (fst (m p), fst (m p) * fst (m p)))"

definition test_mem :: "nat \<Rightarrow> int \<times> int" where
  "test_mem i = (int i + 1, - 99)"

definition test_job :: "nat \<Rightarrow> (nat, nat \<Rightarrow> int \<times> int) Job" where
  "test_job p = \<lparr>param = p, jobfun = jobfunc\<rparr>"

text \<open>Two workers, three jobs.\<close>

definition test_start :: "(nat, nat \<Rightarrow> int \<times> int) sys" where
  "test_start =
     \<lparr>queue = \<lparr>todo = [], acceptingJobs = 1, threadsStopped = 0, nthreads = 2,
               thread = Some [0, 1]\<rparr>,
      workers = [W_lock, W_lock], main = M_ready, mem = test_mem,
      submitted = [], invoked = []\<rparr>"

definition test_run :: "(nat, nat \<Rightarrow> int \<times> int) label list" where
  "test_run =
     [AddJob (Some ()) jobfunc 0, Worker 0, AddJob (Some ()) jobfunc 1,
      AddJob (Some ()) jobfunc 2, Worker 1, WaitOnJobs, Worker 0, Worker 1, Worker 0,
      Worker 1, Woken, Worker 0, Worker 0, Woken]"

definition test_end :: "(nat, nat \<Rightarrow> int \<times> int) sys" where
  "test_end =
     \<lparr>queue = \<lparr>todo = [], acceptingJobs = 0, threadsStopped = 2, nthreads = 2,
               thread = Some [0, 1]\<rparr>,
      workers = [W_exit, W_exit], main = M_done,
      mem = jobfunc 1 (jobfunc 2 (jobfunc 0 test_mem)),
      submitted = [test_job 2, test_job 1, test_job 0],
      invoked = [test_job 1, test_job 2, test_job 0]\<rparr>"

text \<open>One worker, no job, the owning thread waiting: the worker is about to return.\<close>

definition test_last :: "(nat, nat \<Rightarrow> int \<times> int) sys" where
  "test_last =
     \<lparr>queue = \<lparr>todo = [], acceptingJobs = 0, threadsStopped = 0, nthreads = 1,
               thread = Some [0]\<rparr>,
      workers = [W_wait], main = M_wait, mem = test_mem, submitted = [], invoked = []\<rparr>"

text \<open>The same after the worker's step, and the test's start after \<open>JobQueue_waitOnJobs\<close> was entered.\<close>

definition test_gone :: "(nat, nat \<Rightarrow> int \<times> int) sys" where
  "test_gone = test_last\<lparr>queue := (queue test_last)\<lparr>threadsStopped := 1\<rparr>, workers := [W_exit]\<rparr>"

definition test_wait :: "(nat, nat \<Rightarrow> int \<times> int) sys" where
  "test_wait = test_start\<lparr>queue := (queue test_start)\<lparr>acceptingJobs := 0\<rparr>, main := M_wait\<rparr>"

text \<open>The queue of the test with no job, one job and two jobs.\<close>

definition test_q0 :: "(nat, nat \<Rightarrow> int \<times> int) JobQueue" where
  "test_q0 = queue test_start"

definition test_q1 :: "(nat, nat \<Rightarrow> int \<times> int) JobQueue" where
  "test_q1 = (queue test_start)\<lparr>todo := [test_job 0]\<rparr>"

definition test_q2 :: "(nat, nat \<Rightarrow> int \<times> int) JobQueue" where
  "test_q2 = (queue test_start)\<lparr>todo := [test_job 1, test_job 0]\<rparr>"

text \<open>No worker at all: after \<open>JobQueue_new(0)\<close>, and after one job was added.\<close>

definition test_none :: "(nat, nat \<Rightarrow> int \<times> int) sys" where
  "test_none =
     \<lparr>queue = \<lparr>todo = [], acceptingJobs = 1, threadsStopped = 0, nthreads = 0,
               thread = Some []\<rparr>,
      workers = [], main = M_ready, mem = test_mem, submitted = [], invoked = []\<rparr>"

definition test_none_job :: "(nat, nat \<Rightarrow> int \<times> int) sys" where
  "test_none_job =
     test_none\<lparr>queue := (queue test_none)\<lparr>todo := [test_job 0]\<rparr>, submitted := [test_job 0]\<rparr>"

text \<open>A store with a queue at 10, its list of two jobs at 3 and 2, and its handles at 20.\<close>

definition test_heap :: "(nat, nat \<Rightarrow> int \<times> int) heap" where
  "test_heap =
     (\<lambda>a. None)(10 := Some (Queue_obj (Some 3) (Some 20)),
                 3 := Some (Job_obj (Some 2) (test_job 1)),
                 2 := Some (Job_obj None (test_job 0)),
                 20 := Some Thread_obj)"

section \<open>Lemmas\<close>

subsection \<open>The functions\<close>

lemma launch_eq:
  "launch is jq =
     (case thread jq of
        None \<Rightarrow> (if is = [] then Inr jq else Inl Null_store)
      | Some hs \<Rightarrow> Inr (jq\<lparr>thread := Some (hs @ is)\<rparr>))"
  by (induction "is" arbitrary: jq) (auto split: option.splits)

lemma JobQueue_new_dies: "JobQueue_new None m_thread n = Inl (Died ''allocation error'')"
  by (simp add: JobQueue_new_def)

lemma JobQueue_addJob_dies: "JobQueue_addJob None f p jq = Inl (Died ''allocation error'')"
  by (simp add: JobQueue_addJob_def)

lemma threadfun_locked_cases:
  assumes "threadfun_locked jq = Inr (es, w, jq')"
  obtains
    (wait) "todo jq = []" "acceptingJobs jq = 1" "w = W_wait" "jq' = jq"
  | (exit) "todo jq = []" "acceptingJobs jq = 0" "w = W_exit"
      "jq' = jq\<lparr>threadsStopped := threadsStopped jq + 1\<rparr>"
  | (job) job rest where "todo jq = job # rest" "w = W_job job" "jq' = jq\<lparr>todo := rest\<rparr>"
  using assms
  by (auto simp: threadfun_locked_def Let_def split: list.splits if_splits)

subsection \<open>Counting workers and jobs\<close>

lemma held_append:
  "held (xs @ ys) = held xs @ held ys"
  "held (w # ws) = in_hand w @ held ws"
  "held [] = []"
  by (simp_all add: held_def)

lemma stopped_append:
  "stopped (xs @ ys) = stopped xs + stopped ys"
  "stopped (w # ws) = (if w = W_exit then 1 else 0) + stopped ws"
  "stopped [] = 0"
  by (simp_all add: stopped_def)

lemma held_update:
  assumes "i < length ws"
  shows "mset (held (ws[i := w])) + mset (in_hand (ws ! i)) = mset (held ws) + mset (in_hand w)"
proof -
  have "mset (held (take i ws @ w # drop (Suc i) ws)) + mset (in_hand (ws ! i)) =
        mset (held (take i ws @ ws ! i # drop (Suc i) ws)) + mset (in_hand w)"
    by (simp add: held_append)
  with assms show ?thesis
    by (simp add: upd_conv_take_nth_drop id_take_nth_drop [symmetric])
qed

lemma stopped_update:
  assumes "i < length ws"
  shows "stopped (ws[i := w]) + (if ws ! i = W_exit then 1 else 0) =
         stopped ws + (if w = W_exit then 1 else 0)"
proof -
  have "stopped (take i ws @ w # drop (Suc i) ws) + (if ws ! i = W_exit then 1 else 0) =
        stopped (take i ws @ ws ! i # drop (Suc i) ws) + (if w = W_exit then 1 else 0)"
    by (simp add: stopped_append)
  with assms show ?thesis
    by (simp add: upd_conv_take_nth_drop id_take_nth_drop [symmetric])
qed

lemma stopped_le: "stopped ws \<le> length ws"
  by (simp add: stopped_def)

lemma stopped_all_exit:
  assumes "stopped ws = length ws" and "w \<in> set ws"
  shows "w = W_exit"
  using assms length_filter_less [of w ws "\<lambda>w. w = W_exit"]
  by (auto simp: stopped_def)

lemma stopped_all:
  assumes "stopped ws = length ws"
  shows "held ws = []"
  using stopped_all_exit [OF assms] by (force simp: held_def)

lemma stopped_fresh:
  "stopped (map (\<lambda>_. W_lock) hs) = 0" "held (map (\<lambda>_. W_lock) hs) = []"
  by (induction hs) (auto simp: stopped_append held_append)

subsection \<open>The invariant\<close>

lemma inv_start:
  "start m_jq m_thread n m0 = Inr s \<Longrightarrow> 0 \<le> n \<Longrightarrow> inv n m0 s"
  by (cases m_jq; cases m_thread)
     (auto simp: start_def JobQueue_new_def launch_eq inv_def stopped_fresh stopped_append
        held_append split: if_splits)

lemma inv_worker_locked:
  assumes I: "inv n m0 s"
    and i: "i < length (workers s)"
    and at: "in_hand (workers s ! i) = []" "workers s ! i \<noteq> W_exit"
    and tl: "threadfun_locked (queue s) = Inr (es, w, jq)"
  shows "inv n m0 (s\<lparr>queue := jq, workers := (workers s)[i := w]\<rparr>)"
proof -
  from held_update [OF i, of w] at
  have h: "mset (held ((workers s)[i := w])) = mset (held (workers s)) + mset (in_hand w)"
    by simp
  from stopped_update [OF i, of w] at
  have c: "stopped ((workers s)[i := w]) = stopped (workers s) + (if w = W_exit then 1 else 0)"
    by simp
  from stopped_update [OF i, of W_exit] at i stopped_le [of "(workers s)[i := W_exit]"]
  have lt: "stopped (workers s) < length (workers s)"
    by simp
  from tl show ?thesis
  proof (cases rule: threadfun_locked_cases)
    case wait
    with I h c show ?thesis
      by (auto simp: inv_def)
  next
    case exit
    with I h c lt show ?thesis
      by (auto simp: inv_def split: if_splits)
  next
    case (job j rest)
    with I h c lt show ?thesis
      by (auto simp: inv_def)
  qed
qed

lemma inv_worker_job:
  assumes I: "inv n m0 s"
    and i: "i < length (workers s)"
    and at: "workers s ! i = W_job job"
  shows "inv n m0 (s\<lparr>workers := (workers s)[i := W_lock],
                    mem := jobfun job (param job) (mem s),
                    invoked := job # invoked s\<rparr>)"
proof -
  from held_update [OF i, of W_lock] at
  have h: "mset (held (workers s)) = mset (held ((workers s)[i := W_lock])) + {#job#}"
    by simp
  from stopped_update [OF i, of W_lock] at
  have c: "stopped ((workers s)[i := W_lock]) = stopped (workers s)"
    by simp
  from I h c show ?thesis
    by (auto simp: inv_def)
qed

lemma inv_step:
  assumes "inv n m0 s" "step l s = Inr s'"
  shows "inv n m0 s'"
proof (cases l)
  case (Worker i)
  show ?thesis
  proof (cases "i < length (workers s)")
    case False
    with assms Worker show ?thesis by (simp add: worker_step_def)
  next
    case True
    show ?thesis
    proof (cases "workers s ! i")
      case W_lock
      with assms Worker True show ?thesis
        by (auto simp: worker_step_def split: sum.splits intro: inv_worker_locked)
    next
      case W_wait
      with assms Worker True show ?thesis
        by (auto simp: worker_step_def split: sum.splits intro: inv_worker_locked)
    next
      case (W_job job)
      with assms Worker True show ?thesis
        by (auto simp: worker_step_def intro: inv_worker_job)
    next
      case W_exit
      with assms Worker True show ?thesis by (simp add: worker_step_def)
    qed
  qed
next
  case (AddJob m f p)
  with assms show ?thesis
    by (cases m) (auto simp: inv_def JobQueue_addJob_def split: if_splits)
next
  case WaitOnJobs
  with assms show ?thesis
    by (auto simp: inv_def JobQueue_waitOnJobs_def waitOnJobs_while_def split: if_splits)
next
  case Woken
  with assms show ?thesis
    by (auto simp: inv_def JobQueue_waitOnJobs_def waitOnJobs_while_def split: if_splits)
qed

lemma inv_run:
  "run ls s = Inr s' \<Longrightarrow> inv n m0 s \<Longrightarrow> inv n m0 s'"
  by (induction ls arbitrary: s) (auto split: sum.splits intro: inv_step)

lemma inv_reach:
  "start m_jq m_thread n m0 = Inr s0 \<Longrightarrow> 0 \<le> n \<Longrightarrow> run ls s0 = Inr s \<Longrightarrow> inv n m0 s"
  by (blast intro: inv_run inv_start)

lemma inv_all_stopped:
  assumes "inv n m0 s" "0 < n" "n \<le> threadsStopped (queue s)"
  shows "todo (queue s) = [] \<and> held (workers s) = [] \<and> mset (invoked s) = mset (submitted s)
         \<and> threadsStopped (queue s) = n"
proof -
  from assms stopped_le [of "workers s"]
  have all: "stopped (workers s) = length (workers s)" and eq: "threadsStopped (queue s) = n"
    by (auto simp: inv_def)
  from all have "held (workers s) = []" by (rule stopped_all)
  with assms eq show ?thesis by (auto simp: inv_def)
qed

subsection \<open>Linked lists in the store\<close>

lemma linked_unique: "linked h p as \<Longrightarrow> linked h p bs \<Longrightarrow> as = bs"
proof (induction as arbitrary: p bs)
  case Nil
  then show ?case by (cases bs) auto
next
  case (Cons a as)
  then show ?case
    by (cases bs) (auto split: option.splits obj.splits)
qed

lemma linked_from_member:
  "linked h p as \<Longrightarrow> a \<in> set as \<Longrightarrow> \<exists>bs. linked h (Some a) (a # bs) \<and> length bs < length as"
proof (induction as arbitrary: p)
  case Nil
  then show ?case by simp
next
  case (Cons b as)
  show ?case
  proof (cases "a = b")
    case True
    with Cons.prems show ?thesis by (intro exI [of _ as]) auto
  next
    case False
    with Cons.prems obtain nxt where "linked h nxt as" "a \<in> set as"
      by (auto split: option.splits obj.splits)
    from Cons.IH [OF this] show ?thesis by (auto intro: less_SucI)
  qed
qed

lemma linked_head_fresh:
  assumes "linked h p (a # as)"
  shows "a \<notin> set as"
proof
  assume "a \<in> set as"
  from assms obtain nxt where nxt: "linked h nxt as" "p = Some a"
    by (auto split: option.splits obj.splits)
  from linked_from_member [OF nxt(1) \<open>a \<in> set as\<close>]
  obtain bs where bs: "linked h (Some a) (a # bs)" "length bs < length as" by blast
  from assms nxt(2) bs(1) have "a # as = a # bs" by (intro linked_unique [of h p]) simp_all
  with bs(2) show False by simp
qed

lemma linked_cells:
  "linked h p as \<Longrightarrow> a \<in> set as \<Longrightarrow> \<exists>nxt job. h a = Some (Job_obj nxt job)"
  by (induction as arbitrary: p) (auto split: option.splits obj.splits)

lemma Job_free_linked:
  "linked h p as \<Longrightarrow> Job_free p h = Some (Inr (\<lambda>a. if a \<in> set as then None else h a))"
proof (induction as arbitrary: p)
  case Nil
  then show ?case by (simp add: Job_free.simps)
next
  case (Cons a as)
  from Cons.prems obtain nxt job where
    cell: "p = Some a" "h a = Some (Job_obj nxt job)" and rest: "linked h nxt as"
    by (auto split: option.splits obj.splits)
  from linked_head_fresh [OF Cons.prems] have fresh: "a \<notin> set as" .
  from Cons.IH [OF rest] cell fresh show ?case
    by (subst Job_free.simps) (auto simp: fun_eq_iff)
qed

subsection \<open>Single steps\<close>

lemma JobQueue_new_fields:
  assumes "JobQueue_new m_jq m_thread n = Inr jq"
  shows "todo jq = [] \<and> acceptingJobs jq = 1 \<and> threadsStopped jq = 0 \<and> nthreads jq = n"
  using assms
  by (cases m_jq) (auto simp: JobQueue_new_def launch_eq split: option.splits if_splits)

lemma threadfun_locked_frame:
  assumes "threadfun_locked jq = Inr (es, w, jq')"
  shows "acceptingJobs jq' = acceptingJobs jq \<and> nthreads jq' = nthreads jq \<and>
         threadsStopped jq' = threadsStopped jq + (if w = W_exit then 1 else 0)"
  using assms by (cases rule: threadfun_locked_cases) auto

lemma worker_step_frame:
  assumes "worker_step i s = Inr s'"
  shows "acceptingJobs (queue s') = acceptingJobs (queue s) \<and>
         nthreads (queue s') = nthreads (queue s) \<and>
         threadsStopped (queue s) \<le> threadsStopped (queue s') \<and>
         threadsStopped (queue s') \<le> threadsStopped (queue s) + 1"
proof (cases "i < length (workers s)")
  case False
  with assms show ?thesis by (simp add: worker_step_def)
next
  case True
  show ?thesis
  proof (cases "workers s ! i")
    case W_lock
    with assms True obtain es w jq where
      "threadfun_locked (queue s) = Inr (es, w, jq)" "queue s' = jq"
      by (auto simp: worker_step_def split: sum.splits)
    with threadfun_locked_frame [of "queue s" es w jq] show ?thesis by simp
  next
    case W_wait
    with assms True obtain es w jq where
      "threadfun_locked (queue s) = Inr (es, w, jq)" "queue s' = jq"
      by (auto simp: worker_step_def split: sum.splits)
    with threadfun_locked_frame [of "queue s" es w jq] show ?thesis by simp
  next
    case (W_job job)
    with assms True show ?thesis by (auto simp: worker_step_def)
  next
    case W_exit
    with assms True show ?thesis by (auto simp: worker_step_def)
  qed
qed

lemma step_acceptingJobs:
  assumes "step l s = Inr s'"
  shows "acceptingJobs (queue s') = acceptingJobs (queue s) \<or>
         l = WaitOnJobs \<and> main s = M_ready \<and> acceptingJobs (queue s') = 0"
proof (cases l)
  case (Worker i)
  with assms worker_step_frame [of i s s'] show ?thesis by simp
next
  case (AddJob m f p)
  with assms show ?thesis
    by (cases m) (auto simp: JobQueue_addJob_def split: if_splits)
next
  case WaitOnJobs
  with assms show ?thesis
    by (auto simp: JobQueue_waitOnJobs_def waitOnJobs_while_def split: if_splits)
next
  case Woken
  with assms show ?thesis
    by (auto simp: waitOnJobs_while_def split: if_splits)
qed

lemma step_threadsStopped:
  assumes "step l s = Inr s'"
  shows "threadsStopped (queue s) \<le> threadsStopped (queue s') \<and>
         threadsStopped (queue s') \<le> threadsStopped (queue s) + 1"
proof (cases l)
  case (Worker i)
  with assms worker_step_frame [of i s s'] show ?thesis by simp
next
  case (AddJob m f p)
  with assms show ?thesis
    by (cases m) (auto simp: JobQueue_addJob_def split: if_splits)
next
  case WaitOnJobs
  with assms show ?thesis
    by (auto simp: JobQueue_waitOnJobs_def waitOnJobs_while_def split: if_splits)
next
  case Woken
  with assms show ?thesis
    by (auto simp: waitOnJobs_while_def split: if_splits)
qed

lemma run_acceptingJobs:
  "run ls s = Inr s' \<Longrightarrow> acceptingJobs (queue s) = 0 \<Longrightarrow> acceptingJobs (queue s') = 0"
proof (induction ls arbitrary: s)
  case Nil
  then show ?case by simp
next
  case (Cons l ls)
  from Cons.prems(1) obtain s1 where s1: "step l s = Inr s1" "run ls s1 = Inr s'"
    by (auto split: sum.splits)
  from step_acceptingJobs [OF s1(1)] Cons.prems(2) have "acceptingJobs (queue s1) = 0" by auto
  with s1(2) show ?case by (rule Cons.IH)
qed

lemma run_threadsStopped:
  "run ls s = Inr s' \<Longrightarrow> threadsStopped (queue s) \<le> threadsStopped (queue s')"
proof (induction ls arbitrary: s)
  case Nil
  then show ?case by simp
next
  case (Cons l ls)
  from Cons.prems(1) obtain s1 where s1: "step l s = Inr s1" "run ls s1 = Inr s'"
    by (auto split: sum.splits)
  from step_threadsStopped [OF s1(1)] Cons.IH [OF s1(2)] show ?case by simp
qed

lemma worker_step_exit:
  assumes "i < length (workers s)" "workers s ! i \<noteq> W_exit"
    and "step (Worker i) s = Inr s'" "workers s' ! i = W_exit"
  shows "todo (queue s) = [] \<and> acceptingJobs (queue s) = 0 \<and> todo (queue s') = [] \<and>
         threadsStopped (queue s') = threadsStopped (queue s) + 1"
proof (cases "workers s ! i")
  case (W_job job)
  with assms show ?thesis by (auto simp: worker_step_def)
next
  case W_exit
  with assms show ?thesis by simp
next
  case W_lock
  with assms obtain es w jq where
    tl: "threadfun_locked (queue s) = Inr (es, w, jq)" and
    s': "s' = s\<lparr>queue := jq, workers := (workers s)[i := w]\<rparr>"
    by (auto simp: worker_step_def split: sum.splits)
  from tl show ?thesis
    by (cases rule: threadfun_locked_cases) (use assms s' in auto)
next
  case W_wait
  with assms obtain es w jq where
    tl: "threadfun_locked (queue s) = Inr (es, w, jq)" and
    s': "s' = s\<lparr>queue := jq, workers := (workers s)[i := w]\<rparr>"
    by (auto simp: worker_step_def split: sum.splits)
  from tl show ?thesis
    by (cases rule: threadfun_locked_cases) (use assms s' in auto)
qed

lemma inv_worker_moves:
  assumes "inv n m0 s"
  shows "\<exists>s'. step (Worker i) s = Inr s'"
proof -
  from assms have "acceptingJobs (queue s) = 1 \<or> acceptingJobs (queue s) = 0"
    by (auto simp: inv_def)
  then have "\<exists>r. threadfun_locked (queue s) = Inr r"
    by (auto simp: threadfun_locked_def Let_def split: list.splits)
  then show ?thesis
    by (auto simp: worker_step_def split: worker.splits)
qed

lemma stopped_list_all: "stopped ws = length ws \<Longrightarrow> list_all (\<lambda>w. w = W_exit) ws"
  by (auto simp: list_all_iff dest: stopped_all_exit)

subsection \<open>Teardown\<close>

lemma JobQueue_free_linked:
  assumes q: "h jq = Some (Queue_obj td th)"
    and l: "linked h td as"
    and t: "case th of None \<Rightarrow> True | Some t \<Rightarrow> h t = Some Thread_obj"
  shows "JobQueue_free (Some jq) h =
         Some (Inr (\<lambda>a. if a \<in> set as \<or> Some a = th \<or> a = jq then None else h a))"
proof -
  let ?h1 = "\<lambda>a. if a \<in> set as then None else h a"
  have jq: "jq \<notin> set as"
    using linked_cells [OF l, of jq] q by auto
  have 1: "Job_free td h = Some (Inr ?h1)"
    using l by (rule Job_free_linked)
  show ?thesis
  proof (cases th)
    case None
    with q 1 jq show ?thesis by (auto simp: fun_eq_iff)
  next
    case (Some a)
    with t have a: "h a = Some Thread_obj" by simp
    with linked_cells [OF l, of a] have "a \<notin> set as" by auto
    with q 1 jq a Some show ?thesis by (auto simp: fun_eq_iff)
  qed
qed

subsection \<open>The test run\<close>

lemmas run_defs = start_def JobQueue_new_def upt_rec JobQueue_addJob_def worker_step_def
  threadfun_locked_def JobQueue_waitOnJobs_def waitOnJobs_while_def

lemma test_start_eq: "start (Some ()) (Some ()) 2 test_mem = Inr test_start"
  by (simp add: run_defs test_start_def)

lemma test_run_eq: "run test_run test_start = Inr test_end"
  by (simp add: run_defs test_start_def test_run_def test_end_def test_job_def)

lemma test_mem_end:
  "jobfunc 1 (jobfunc 2 (jobfunc 0 test_mem)) = test_mem(0 := (1, 1), 1 := (2, 4), 2 := (3, 9))"
  by (auto simp: jobfunc_def test_mem_def fun_eq_iff)

lemma test_last_step: "step (Worker 0) test_last = Inr test_gone"
  by (simp add: run_defs test_last_def test_gone_def)

lemma test_last_woken: "step Woken test_last = Inr test_last"
  by (simp add: waitOnJobs_while_def test_last_def)

lemma test_new_eq: "JobQueue_new (Some ()) (Some ()) 2 = Inr (queue test_start)"
  by (simp add: run_defs test_start_def)

lemma test_wait_eq: "step WaitOnJobs test_start = Inr test_wait"
  by (simp add: run_defs test_start_def test_wait_def)

lemma test_gone_eq: "run [Worker 0, Woken] test_last = Inr (test_gone\<lparr>main := M_done\<rparr>)"
  by (simp add: run_defs test_last_def test_gone_def)

lemma test_none_eq: "start (Some ()) (Some ()) 0 test_mem = Inr test_none"
  by (simp add: run_defs test_none_def)

lemma test_none_job_eq: "run [AddJob (Some ()) jobfunc 0, Worker 0] test_none = Inr test_none_job"
  by (simp add: run_defs test_none_def test_none_job_def test_job_def)

lemma test_last_reached:
  "start (Some ()) (Some ()) 1 test_mem = Inr s0 \<Longrightarrow> run [Worker 0, WaitOnJobs] s0 = Inr test_last"
  by (auto simp: run_defs test_last_def)

section \<open>The claims\<close>

text \<open>
  C1. For every thread count \<open>n \<ge> 1\<close> and all jobs handed to \<open>JobQueue_addJob\<close> before
  \<open>JobQueue_waitOnJobs\<close> is called: once \<open>JobQueue_waitOnJobs\<close> has returned, the
  functions called by the workers are the submitted jobs, each as often as it was
  submitted and each with its own argument; no job is left on the list or in a worker's
  hand; and the memory the owning thread then reads is the start memory with the
  effect of every called job applied.
\<close>

theorem jobs_run_exactly_once:
  assumes "start m_jq m_thread n m0 = Inr s0" and "1 \<le> n"
    and "run ls s0 = Inr s" and "main s = M_done"
  shows "mset (invoked s) = mset (submitted s) \<and>
         todo (queue s) = [] \<and> held (workers s) = [] \<and>
         mem s = foldr (\<lambda>job. jobfun job (param job)) (invoked s) m0"
proof -
  from assms(2) have "0 \<le> n" by simp
  with assms(1) have I: "inv n m0 s" using assms(3) by (rule inv_reach)
  from I assms(4) have "n \<le> threadsStopped (queue s)" by (simp add: inv_def)
  with I assms(2) have "todo (queue s) = [] \<and> held (workers s) = [] \<and>
      mset (invoked s) = mset (submitted s) \<and> threadsStopped (queue s) = n"
    by (intro inv_all_stopped) simp_all
  moreover from I have "mem s = foldr (\<lambda>job. jobfun job (param job)) (invoked s) m0"
    by (simp add: inv_def)
  ultimately show ?thesis by simp
qed

theorem jobs_run_exactly_once_witness:
  "start (Some ()) (Some ()) 2 test_mem = Inr test_start \<and> (1::int) \<le> 2 \<and>
   run test_run test_start = Inr test_end \<and> main test_end = M_done \<and>
   mset (invoked test_end) = mset (submitted test_end) \<and>
   todo (queue test_end) = [] \<and> held (workers test_end) = [] \<and>
   mem test_end = foldr (\<lambda>job. jobfun job (param job)) (invoked test_end) test_mem \<and>
   mem test_end = test_mem(0 := (1, 1), 1 := (2, 4), 2 := (3, 9))"
proof -
  have d: "main test_end = M_done" by (simp add: test_end_def)
  have m: "mem test_end = test_mem(0 := (1, 1), 1 := (2, 4), 2 := (3, 9))"
    using test_mem_end by (simp add: test_end_def)
  from jobs_run_exactly_once [OF test_start_eq _ test_run_eq d] test_start_eq test_run_eq d m
  show ?thesis by simp
qed

text \<open>
  C2, at the input where it fails. The claim: every allocation failure is detected and
  ends the process through \<open>checkmem\<close> and \<open>die\<close>. When the second \<open>malloc\<close> of
  \<open>JobQueue_new\<close> (the array of worker handles) returns the null pointer and one
  worker is asked for, \<open>JobQueue_new\<close> does not die: it goes on to
  \<open>pthread_create(&jq->thread[0], ...)\<close>, a store through the null pointer. (The other
  two allocations are checked: \<open>JobQueue_new_dies\<close>, \<open>JobQueue_addJob_dies\<close>.)
\<close>

theorem JobQueue_new_thread_array_unchecked:
  "JobQueue_new (Some ()) None 1 = Inl Null_store"
  by (simp add: JobQueue_new_def)

text \<open>
  C3. A worker goes from inside its loop to returned (counting itself in
  \<open>threadsStopped\<close>) only in a state where the list is empty and \<open>acceptingJobs\<close> is 0,
  and the list is still empty afterwards. In every state the program reaches with at
  least one worker, no worker step fails its \<open>assert\<close>, and once all workers have
  stopped the list is empty, no worker holds a job, and every submitted job has been
  called.
\<close>

theorem worker_exits_only_when_drained:
  "(i < length (workers s1) \<and> workers s1 ! i \<noteq> W_exit \<and>
    step (Worker i) s1 = Inr s1' \<and> workers s1' ! i = W_exit \<longrightarrow>
      todo (queue s1) = [] \<and> acceptingJobs (queue s1) = 0 \<and> todo (queue s1') = [] \<and>
      threadsStopped (queue s1') = threadsStopped (queue s1) + 1) \<and>
   (start m_jq m_thread n m0 = Inr s0 \<and> 1 \<le> n \<and> run ls s0 = Inr s \<longrightarrow>
      (\<exists>s'. step (Worker j) s = Inr s') \<and>
      (threadsStopped (queue s) = nthreads (queue s) \<longrightarrow>
         todo (queue s) = [] \<and> held (workers s) = [] \<and>
         mset (invoked s) = mset (submitted s)))"
proof -
  have A: "todo (queue s1) = [] \<and> acceptingJobs (queue s1) = 0 \<and> todo (queue s1') = [] \<and>
      threadsStopped (queue s1') = threadsStopped (queue s1) + 1"
    if "i < length (workers s1) \<and> workers s1 ! i \<noteq> W_exit \<and>
        step (Worker i) s1 = Inr s1' \<and> workers s1' ! i = W_exit"
    using that by (intro worker_step_exit [of i]) simp_all
  have B: "(\<exists>s'. step (Worker j) s = Inr s') \<and>
      (threadsStopped (queue s) = nthreads (queue s) \<longrightarrow>
         todo (queue s) = [] \<and> held (workers s) = [] \<and>
         mset (invoked s) = mset (submitted s))"
    if r: "start m_jq m_thread n m0 = Inr s0 \<and> 1 \<le> n \<and> run ls s0 = Inr s"
  proof -
    from r have I: "inv n m0 s" by (intro inv_reach [of m_jq m_thread n m0 s0 ls]) simp_all
    from I have m: "\<exists>s'. step (Worker j) s = Inr s'" by (rule inv_worker_moves)
    have "todo (queue s) = [] \<and> held (workers s) = [] \<and>
        mset (invoked s) = mset (submitted s) \<and> threadsStopped (queue s) = n"
      if "threadsStopped (queue s) = nthreads (queue s)"
    proof -
      from I that have "n \<le> threadsStopped (queue s)" by (simp add: inv_def)
      with I r show ?thesis by (intro inv_all_stopped) simp_all
    qed
    with m show ?thesis by simp
  qed
  from A B show ?thesis by blast
qed

theorem worker_exits_only_when_drained_witness:
  "0 < length (workers test_last) \<and> workers test_last ! 0 \<noteq> W_exit \<and>
   step (Worker 0) test_last = Inr test_gone \<and> workers test_gone ! 0 = W_exit \<and>
   todo (queue test_last) = [] \<and> acceptingJobs (queue test_last) = 0 \<and>
   todo (queue test_gone) = [] \<and>
   threadsStopped (queue test_gone) = threadsStopped (queue test_last) + 1 \<and>
   start (Some ()) (Some ()) 2 test_mem = Inr test_start \<and> (1::int) \<le> 2 \<and>
   run test_run test_start = Inr test_end \<and>
   (\<exists>s'. step (Worker 0) test_end = Inr s') \<and>
   threadsStopped (queue test_end) = nthreads (queue test_end) \<and>
   todo (queue test_end) = [] \<and> held (workers test_end) = [] \<and>
   mset (invoked test_end) = mset (submitted test_end)"
proof -
  have a: "0 < length (workers test_last) \<and> workers test_last ! 0 \<noteq> W_exit \<and>
      step (Worker 0) test_last = Inr test_gone \<and> workers test_gone ! 0 = W_exit"
    using test_last_step by (simp add: test_last_def test_gone_def)
  have b: "start (Some ()) (Some ()) 2 test_mem = Inr test_start \<and> (1::int) \<le> 2 \<and>
      run test_run test_start = Inr test_end"
    using test_start_eq test_run_eq by simp
  have c: "threadsStopped (queue test_end) = nthreads (queue test_end)"
    by (simp add: test_end_def)
  from worker_exits_only_when_drained
    [of 0 test_last test_gone "Some ()" "Some ()" 2 test_mem test_start test_run test_end 0]
    a b c
  show ?thesis by simp
qed

text \<open>
  C4. \<open>JobQueue_waitOnJobs\<close> locks, sets \<open>acceptingJobs\<close> to 0 and tests
  \<open>threadsStopped < nthreads\<close>: while the test holds it broadcasts \<open>wakeWorker\<close> and
  waits on \<open>wakeMain\<close>, and tests again when woken; otherwise it unlocks and returns.
  For a thread count \<open>n \<ge> 0\<close>, in every state where it has returned,
  \<open>threadsStopped = nthreads\<close> and every worker has returned.
\<close>

theorem waitOnJobs_returns_when_all_stopped:
  "JobQueue_waitOnJobs jq =
     (if threadsStopped jq < nthreads jq
      then ([Lock, Broadcast wakeWorker, Wait wakeMain], M_wait, jq\<lparr>acceptingJobs := 0\<rparr>)
      else ([Lock, Unlock], M_done, jq\<lparr>acceptingJobs := 0\<rparr>)) \<and>
   (main s1 = M_wait \<longrightarrow>
      waitOnJobs_while (queue s1) =
        (if threadsStopped (queue s1) < nthreads (queue s1)
         then ([Broadcast wakeWorker, Wait wakeMain], M_wait, queue s1)
         else ([Unlock], M_done, queue s1)) \<and>
      step Woken s1 =
        Inr (s1\<lparr>main := if threadsStopped (queue s1) < nthreads (queue s1)
                          then M_wait else M_done\<rparr>)) \<and>
   (start m_jq m_thread n m0 = Inr s0 \<and> 0 \<le> n \<and> run ls s0 = Inr s \<and> main s = M_done \<longrightarrow>
      acceptingJobs (queue s) = 0 \<and>
      threadsStopped (queue s) = nthreads (queue s) \<and>
      length (workers s) = nat (nthreads (queue s)) \<and>
      list_all (\<lambda>w. w = W_exit) (workers s))"
proof -
  have A: "JobQueue_waitOnJobs jq =
     (if threadsStopped jq < nthreads jq
      then ([Lock, Broadcast wakeWorker, Wait wakeMain], M_wait, jq\<lparr>acceptingJobs := 0\<rparr>)
      else ([Lock, Unlock], M_done, jq\<lparr>acceptingJobs := 0\<rparr>))"
    by (simp add: JobQueue_waitOnJobs_def waitOnJobs_while_def)
  have B: "waitOnJobs_while (queue s1) =
        (if threadsStopped (queue s1) < nthreads (queue s1)
         then ([Broadcast wakeWorker, Wait wakeMain], M_wait, queue s1)
         else ([Unlock], M_done, queue s1)) \<and>
      step Woken s1 =
        Inr (s1\<lparr>main := if threadsStopped (queue s1) < nthreads (queue s1)
                          then M_wait else M_done\<rparr>)"
    if "main s1 = M_wait"
    using that by (simp add: waitOnJobs_while_def)
  have C: "acceptingJobs (queue s) = 0 \<and>
      threadsStopped (queue s) = nthreads (queue s) \<and>
      length (workers s) = nat (nthreads (queue s)) \<and>
      list_all (\<lambda>w. w = W_exit) (workers s)"
    if r: "start m_jq m_thread n m0 = Inr s0 \<and> 0 \<le> n \<and> run ls s0 = Inr s \<and> main s = M_done"
  proof -
    from r have I: "inv n m0 s" by (intro inv_reach [of m_jq m_thread n m0 s0 ls]) simp_all
    with r stopped_le [of "workers s"]
    have "stopped (workers s) = length (workers s)" and "threadsStopped (queue s) = n"
      by (auto simp: inv_def)
    moreover from I have "acceptingJobs (queue s) = (if main s = M_ready then 1 else 0)"
      and "nthreads (queue s) = n" and "length (workers s) = nat n"
      by (simp_all add: inv_def)
    ultimately show ?thesis using r by (simp add: stopped_list_all)
  qed
  show ?thesis
    apply (rule conjI)
     apply (rule A)
    apply (rule conjI)
     apply (rule impI)
     apply (erule B)
    apply (rule impI)
    apply (erule C)
    done
qed

theorem waitOnJobs_returns_when_all_stopped_witness:
  "main test_last = M_wait \<and>
   waitOnJobs_while (queue test_last) =
     ([Broadcast wakeWorker, Wait wakeMain], M_wait, queue test_last) \<and>
   step Woken test_last = Inr test_last \<and>
   start (Some ()) (Some ()) 2 test_mem = Inr test_start \<and> (0::int) \<le> 2 \<and>
   run test_run test_start = Inr test_end \<and> main test_end = M_done \<and>
   acceptingJobs (queue test_end) = 0 \<and>
   threadsStopped (queue test_end) = nthreads (queue test_end) \<and>
   length (workers test_end) = nat (nthreads (queue test_end)) \<and>
   list_all (\<lambda>w. w = W_exit) (workers test_end)"
proof -
  have a: "main test_last = M_wait" "threadsStopped (queue test_last) < nthreads (queue test_last)"
    by (simp_all add: test_last_def)
  have b: "start (Some ()) (Some ()) 2 test_mem = Inr test_start \<and> (0::int) \<le> 2 \<and>
      run test_run test_start = Inr test_end \<and> main test_end = M_done"
    using test_start_eq test_run_eq by (simp add: test_end_def)
  from waitOnJobs_returns_when_all_stopped
    [of "queue test_last" test_last "Some ()" "Some ()" 2 test_mem test_start test_run test_end]
    a b test_last_woken
  show ?thesis by simp
qed

text \<open>
  C5. The list is last in, first out: \<open>JobQueue_addJob\<close> links the new item at the head,
  a worker takes the head. After A then B were added with no worker step in between,
  the next worker to take a job gets B and leaves the list as it was after A; the next
  gets A.
\<close>

theorem todo_is_LIFO:
  assumes "JobQueue_addJob m1 fA pA jq = Inr (e1, jq1)"
    and "JobQueue_addJob m2 fB pB jq1 = Inr (e2, jq2)"
  shows "todo jq1 = \<lparr>param = pA, jobfun = fA\<rparr> # todo jq \<and>
         todo jq2 = \<lparr>param = pB, jobfun = fB\<rparr> # \<lparr>param = pA, jobfun = fA\<rparr> # todo jq \<and>
         threadfun_locked jq2 = Inr ([Unlock], W_job \<lparr>param = pB, jobfun = fB\<rparr>, jq1) \<and>
         threadfun_locked jq1 = Inr ([Unlock], W_job \<lparr>param = pA, jobfun = fA\<rparr>, jq)"
  using assms
  by (cases m1; cases m2) (auto simp: JobQueue_addJob_def threadfun_locked_def)

theorem todo_is_LIFO_witness:
  "JobQueue_addJob (Some ()) jobfunc 0 test_q0 = Inr ([Lock, Signal wakeWorker, Unlock], test_q1) \<and>
   JobQueue_addJob (Some ()) jobfunc 1 test_q1 = Inr ([Lock, Signal wakeWorker, Unlock], test_q2) \<and>
   todo test_q1 = \<lparr>param = 0, jobfun = jobfunc\<rparr> # todo test_q0 \<and>
   todo test_q2 = \<lparr>param = 1, jobfun = jobfunc\<rparr> # \<lparr>param = 0, jobfun = jobfunc\<rparr> # todo test_q0 \<and>
   threadfun_locked test_q2 = Inr ([Unlock], W_job \<lparr>param = 1, jobfun = jobfunc\<rparr>, test_q1) \<and>
   threadfun_locked test_q1 = Inr ([Unlock], W_job \<lparr>param = 0, jobfun = jobfunc\<rparr>, test_q0)"
proof -
  have a: "JobQueue_addJob (Some ()) jobfunc 0 test_q0 = Inr ([Lock, Signal wakeWorker, Unlock], test_q1)"
    by (simp add: JobQueue_addJob_def test_q0_def test_q1_def test_start_def test_job_def)
  have b: "JobQueue_addJob (Some ()) jobfunc 1 test_q1 = Inr ([Lock, Signal wakeWorker, Unlock], test_q2)"
    by (simp add: JobQueue_addJob_def test_q1_def test_q2_def test_start_def test_job_def)
  from todo_is_LIFO [OF a b] a b show ?thesis by simp
qed

text \<open>
  C6. \<open>JobQueue_new\<close> sets \<open>acceptingJobs\<close> to 1. A step changes \<open>acceptingJobs\<close> only
  when it is the owning thread's entry to \<open>JobQueue_waitOnJobs\<close>, which sets it to 0.
  From any state where \<open>acceptingJobs\<close> is 0, it is 0 in every state reached.
\<close>

theorem acceptingJobs_one_shot:
  "(JobQueue_new m_jq m_thread n = Inr jq \<longrightarrow> acceptingJobs jq = 1) \<and>
   (step l s = Inr s' \<longrightarrow>
      acceptingJobs (queue s') = acceptingJobs (queue s) \<or>
      l = WaitOnJobs \<and> main s = M_ready \<and> acceptingJobs (queue s') = 0) \<and>
   (acceptingJobs (queue s1) = 0 \<and> run ls s1 = Inr s2 \<longrightarrow> acceptingJobs (queue s2) = 0)"
proof -
  have A: "acceptingJobs jq = 1" if "JobQueue_new m_jq m_thread n = Inr jq"
    using JobQueue_new_fields [OF that] by simp
  have C: "acceptingJobs (queue s2) = 0" if "acceptingJobs (queue s1) = 0 \<and> run ls s1 = Inr s2"
    using that run_acceptingJobs [of ls s1 s2] by simp
  show ?thesis
    apply (rule conjI)
     apply (rule impI)
     apply (erule A)
    apply (rule conjI)
     apply (rule impI)
     apply (erule step_acceptingJobs)
    apply (rule impI)
    apply (erule C)
    done
qed

theorem acceptingJobs_one_shot_witness:
  "JobQueue_new (Some ()) (Some ()) 2 = Inr (queue test_start) \<and>
   acceptingJobs (queue test_start) = 1 \<and>
   step WaitOnJobs test_start = Inr test_wait \<and>
   main test_start = M_ready \<and> acceptingJobs (queue test_wait) = 0 \<and>
   acceptingJobs (queue test_last) = 0 \<and>
   run [Worker 0, Woken] test_last = Inr (test_gone\<lparr>main := M_done\<rparr>) \<and>
   acceptingJobs (queue (test_gone\<lparr>main := M_done\<rparr>)) = 0"
proof -
  note T = acceptingJobs_one_shot
    [of "Some ()" "Some ()" 2 "queue test_start" WaitOnJobs test_start test_wait test_last
        "[Worker 0, Woken]" "test_gone\<lparr>main := M_done\<rparr>"]
  have r: "main test_start = M_ready" by (simp add: test_start_def)
  have a: "acceptingJobs (queue test_wait) \<noteq> acceptingJobs (queue test_start)"
    by (simp add: test_wait_def test_start_def)
  have b: "acceptingJobs (queue test_last) = 0"
    by (simp add: test_last_def)
  have p1: "acceptingJobs (queue test_start) = 1"
    by (rule T [THEN conjunct1, THEN mp, OF test_new_eq])
  from T [THEN conjunct2, THEN conjunct1, THEN mp, OF test_wait_eq] a
  have p2: "acceptingJobs (queue test_wait) = 0" by simp
  have p3: "acceptingJobs (queue (test_gone\<lparr>main := M_done\<rparr>)) = 0"
    by (rule T [THEN conjunct2, THEN conjunct2, THEN mp, OF conjI [OF b test_gone_eq]])
  show ?thesis
    by (intro conjI) (fact test_new_eq p1 test_wait_eq r p2 b test_gone_eq p3)+
qed

text \<open>
  C7. \<open>threadsStopped\<close> is 0 after \<open>JobQueue_new\<close>; every step leaves it as it is or adds
  one; so it never decreases along a run. For a thread count \<open>n \<ge> 0\<close>, in every state
  the program reaches it is the number of workers that have returned, hence between 0
  and \<open>nthreads\<close>.
\<close>

theorem threadsStopped_monotone_bounded:
  "(JobQueue_new m_jq m_thread n = Inr jq \<longrightarrow> threadsStopped jq = 0) \<and>
   (step l s1 = Inr s1' \<longrightarrow>
      threadsStopped (queue s1) \<le> threadsStopped (queue s1') \<and>
      threadsStopped (queue s1') \<le> threadsStopped (queue s1) + 1) \<and>
   (run ls1 s1 = Inr s2 \<longrightarrow> threadsStopped (queue s1) \<le> threadsStopped (queue s2)) \<and>
   (start m_jq m_thread n m0 = Inr s0 \<and> 0 \<le> n \<and> run ls s0 = Inr s \<longrightarrow>
      threadsStopped (queue s) = int (stopped (workers s)) \<and>
      length (workers s) = nat (nthreads (queue s)) \<and>
      0 \<le> threadsStopped (queue s) \<and>
      threadsStopped (queue s) \<le> nthreads (queue s))"
proof -
  have A: "threadsStopped jq = 0" if "JobQueue_new m_jq m_thread n = Inr jq"
    using JobQueue_new_fields [OF that] by simp
  have D: "threadsStopped (queue s) = int (stopped (workers s)) \<and>
      length (workers s) = nat (nthreads (queue s)) \<and>
      0 \<le> threadsStopped (queue s) \<and>
      threadsStopped (queue s) \<le> nthreads (queue s)"
    if r: "start m_jq m_thread n m0 = Inr s0 \<and> 0 \<le> n \<and> run ls s0 = Inr s"
  proof -
    from r have I: "inv n m0 s" by (intro inv_reach [of m_jq m_thread n m0 s0 ls]) simp_all
    then have "nthreads (queue s) = n" "length (workers s) = nat n"
      "threadsStopped (queue s) = int (stopped (workers s))"
      by (simp_all add: inv_def)
    moreover from r have "0 \<le> n" by simp
    ultimately show ?thesis using stopped_le [of "workers s"] by simp
  qed
  show ?thesis
    apply (rule conjI)
     apply (rule impI)
     apply (erule A)
    apply (rule conjI)
     apply (rule impI)
     apply (erule step_threadsStopped)
    apply (rule conjI)
     apply (rule impI)
     apply (erule run_threadsStopped)
    apply (rule impI)
    apply (erule D)
    done
qed

theorem threadsStopped_monotone_bounded_witness:
  "JobQueue_new (Some ()) (Some ()) 2 = Inr (queue test_start) \<and>
   threadsStopped (queue test_start) = 0 \<and>
   step (Worker 0) test_last = Inr test_gone \<and>
   threadsStopped (queue test_last) \<le> threadsStopped (queue test_gone) \<and>
   threadsStopped (queue test_gone) \<le> threadsStopped (queue test_last) + 1 \<and>
   run [Worker 0, Woken] test_last = Inr (test_gone\<lparr>main := M_done\<rparr>) \<and>
   threadsStopped (queue test_last) \<le> threadsStopped (queue (test_gone\<lparr>main := M_done\<rparr>)) \<and>
   start (Some ()) (Some ()) 2 test_mem = Inr test_start \<and> (0::int) \<le> 2 \<and>
   run test_run test_start = Inr test_end \<and>
   threadsStopped (queue test_end) = int (stopped (workers test_end)) \<and>
   length (workers test_end) = nat (nthreads (queue test_end)) \<and>
   0 \<le> threadsStopped (queue test_end) \<and>
   threadsStopped (queue test_end) \<le> nthreads (queue test_end)"
proof -
  note T = threadsStopped_monotone_bounded
    [of "Some ()" "Some ()" 2 "queue test_start" "Worker 0" test_last test_gone
        "[Worker 0, Woken]" "test_gone\<lparr>main := M_done\<rparr>" test_mem test_start test_run test_end]
  have z: "(0::int) \<le> 2" by simp
  have p1: "threadsStopped (queue test_start) = 0"
    by (rule T [THEN conjunct1, THEN mp, OF test_new_eq])
  note p2 = T [THEN conjunct2, THEN conjunct1, THEN mp, OF test_last_step]
  have p3: "threadsStopped (queue test_last) \<le> threadsStopped (queue (test_gone\<lparr>main := M_done\<rparr>))"
    by (rule T [THEN conjunct2, THEN conjunct2, THEN conjunct1, THEN mp, OF test_gone_eq])
  note p4 = T [THEN conjunct2, THEN conjunct2, THEN conjunct2, THEN mp,
    OF conjI [OF test_start_eq conjI [OF z test_run_eq]]]
  show ?thesis
    by (intro conjI)
      (fact test_new_eq p1 test_last_step p2 [THEN conjunct1] p2 [THEN conjunct2] test_gone_eq p3
         test_start_eq z test_run_eq p4 [THEN conjunct1] p4 [THEN conjunct2, THEN conjunct1]
         p4 [THEN conjunct2, THEN conjunct2, THEN conjunct1]
         p4 [THEN conjunct2, THEN conjunct2, THEN conjunct2])+
qed

text \<open>
  C8. With its item allocated, \<open>JobQueue_addJob\<close> locks, links the item at the head of
  the list, signals \<open>wakeWorker\<close> once, and unlocks. It makes no broadcast and no wait,
  and leaves \<open>acceptingJobs\<close>, \<open>threadsStopped\<close>, \<open>nthreads\<close> and \<open>thread\<close> as they
  were. Called by the owning thread, it completes in one step whatever the workers do.
\<close>

theorem addJob_pushes_and_signals_once:
  "JobQueue_addJob (Some u) f p jq =
     Inr ([Lock, Signal wakeWorker, Unlock], jq\<lparr>todo := \<lparr>param = p, jobfun = f\<rparr> # todo jq\<rparr>) \<and>
   (\<exists>es jq'. JobQueue_addJob (Some u) f p jq = Inr (es, jq') \<and>
      todo jq' = \<lparr>param = p, jobfun = f\<rparr> # todo jq \<and>
      acceptingJobs jq' = acceptingJobs jq \<and>
      threadsStopped jq' = threadsStopped jq \<and>
      nthreads jq' = nthreads jq \<and>
      thread jq' = thread jq \<and>
      hd es = Lock \<and> last es = Unlock \<and>
      count_list es (Signal wakeWorker) = 1 \<and>
      count_list es (Broadcast wakeWorker) = 0 \<and>
      count_list es (Signal wakeMain) = 0 \<and>
      count_list es (Broadcast wakeMain) = 0 \<and>
      count_list es (Wait wakeWorker) = 0 \<and>
      count_list es (Wait wakeMain) = 0) \<and>
   (main s = M_ready \<longrightarrow>
      step (AddJob (Some u) f p) s =
        Inr (s\<lparr>queue := (queue s)\<lparr>todo := \<lparr>param = p, jobfun = f\<rparr> # todo (queue s)\<rparr>,
               submitted := \<lparr>param = p, jobfun = f\<rparr> # submitted s\<rparr>))"
  by (simp add: JobQueue_addJob_def)

theorem addJob_pushes_and_signals_once_witness:
  "main test_start = M_ready \<and>
   step (AddJob (Some ()) jobfunc 0) test_start =
     Inr (test_start\<lparr>queue := (queue test_start)\<lparr>todo := [test_job 0]\<rparr>,
                     submitted := [test_job 0]\<rparr>)"
proof -
  note T = addJob_pushes_and_signals_once [of "()" jobfunc 0 "queue test_start" test_start]
  have r: "main test_start = M_ready" by (simp add: test_start_def)
  have e: "test_start\<lparr>queue := (queue test_start)
               \<lparr>todo := \<lparr>param = 0, jobfun = jobfunc\<rparr> # todo (queue test_start)\<rparr>,
             submitted := \<lparr>param = 0, jobfun = jobfunc\<rparr> # submitted test_start\<rparr> =
           test_start\<lparr>queue := (queue test_start)\<lparr>todo := [test_job 0]\<rparr>,
             submitted := [test_job 0]\<rparr>"
    by (simp add: test_start_def test_job_def)
  from T [THEN conjunct2, THEN conjunct2, THEN mp, OF r]
  have p: "step (AddJob (Some ()) jobfunc 0) test_start =
     Inr (test_start\<lparr>queue := (queue test_start)\<lparr>todo := [test_job 0]\<rparr>,
                     submitted := [test_job 0]\<rparr>)"
    by (simp only: e)
  show ?thesis by (intro conjI) (fact r p)+
qed

text \<open>
  C9. \<open>Job_free\<close> on the null pointer changes nothing. On a list linked through
  \<open>next\<close> to the null pointer, \<open>Job_free\<close> returns and has freed exactly the cells of
  the list. \<open>JobQueue_free\<close> on a queue with such a list returns and has freed the
  cells of the list, the array of worker handles (if there is one) and the queue.
\<close>

theorem teardown_frees_everything:
  "Job_free None h = Some (Inr h) \<and>
   (linked h td as \<longrightarrow>
      Job_free td h = Some (Inr (\<lambda>a. if a \<in> set as then None else h a))) \<and>
   (h jq = Some (Queue_obj td th) \<and> linked h td as \<and>
    (case th of None \<Rightarrow> True | Some t \<Rightarrow> h t = Some Thread_obj) \<longrightarrow>
      JobQueue_free (Some jq) h =
        Some (Inr (\<lambda>a. if a \<in> set as \<or> Some a = th \<or> a = jq then None else h a)))"
proof -
  have A: "Job_free None h = Some (Inr h)"
    by (simp add: Job_free.simps)
  have C: "JobQueue_free (Some jq) h =
        Some (Inr (\<lambda>a. if a \<in> set as \<or> Some a = th \<or> a = jq then None else h a))"
    if "h jq = Some (Queue_obj td th) \<and> linked h td as \<and>
        (case th of None \<Rightarrow> True | Some t \<Rightarrow> h t = Some Thread_obj)"
  proof -
    from that have "h jq = Some (Queue_obj td th)" and "linked h td as"
      and "case th of None \<Rightarrow> True | Some t \<Rightarrow> h t = Some Thread_obj"
      by blast+
    then show ?thesis by (rule JobQueue_free_linked)
  qed
  show ?thesis
    apply (rule conjI)
     apply (rule A)
    apply (rule conjI)
     apply (rule impI)
     apply (erule Job_free_linked)
    apply (rule impI)
    apply (erule C)
    done
qed

theorem teardown_frees_everything_witness:
  "test_heap 10 = Some (Queue_obj (Some 3) (Some 20)) \<and>
   linked test_heap (Some 3) [3, 2] \<and>
   test_heap 20 = Some Thread_obj \<and>
   Job_free (Some 3) test_heap =
     Some (Inr (\<lambda>a. if a \<in> set [3, 2] then None else test_heap a)) \<and>
   JobQueue_free (Some 10) test_heap =
     Some (Inr (\<lambda>a. if a \<in> set [3, 2] \<or> Some a = Some 20 \<or> a = 10 then None
                    else test_heap a)) \<and>
   (\<lambda>a. if a \<in> set [3, 2] \<or> Some a = Some 20 \<or> a = 10 then None else test_heap a)
     = (\<lambda>a. None)"
proof -
  note T = teardown_frees_everything [of test_heap "Some 3" "[3, 2]" 10 "Some 20"]
  have q: "test_heap 10 = Some (Queue_obj (Some 3) (Some 20))"
    by (simp add: test_heap_def)
  have l: "linked test_heap (Some 3) [3, 2]"
    by (simp add: test_heap_def)
  have t: "test_heap 20 = Some Thread_obj"
    by (simp add: test_heap_def)
  have t': "case Some 20 of None \<Rightarrow> True | Some t \<Rightarrow> test_heap t = Some Thread_obj"
    using t by simp
  note p1 = T [THEN conjunct2, THEN conjunct1, THEN mp, OF l]
  note p2 = T [THEN conjunct2, THEN conjunct2, THEN mp, OF conjI [OF q conjI [OF l t']]]
  have e: "(\<lambda>a. if a \<in> set [3, 2] \<or> Some a = Some 20 \<or> a = 10 then None else test_heap a)
     = (\<lambda>a. None)"
    by (auto simp: test_heap_def fun_eq_iff)
  show ?thesis
    by (intro conjI) (fact q l t p1 p2 e)+
qed

text \<open>
  C10. \<open>JobQueue_new(0)\<close> returns a queue with no worker, whether or not the second
  \<open>malloc\<close> gave storage. In every state reached from there in which the owning
  thread calls \<open>JobQueue_waitOnJobs\<close>, the call locks, unlocks and returns, with no
  wait: its loop test \<open>0 < 0\<close> fails at once.
\<close>

theorem zero_threads:
  "JobQueue_new (Some u) m_thread 0 =
     Inr \<lparr>todo = [], acceptingJobs = 1, threadsStopped = 0, nthreads = 0,
          thread = map_option (\<lambda>_. []) m_thread\<rparr> \<and>
   (\<exists>s0. start (Some u) m_thread 0 m0 = Inr s0 \<and> workers s0 = []) \<and>
   (start (Some u) m_thread 0 m0 = Inr s0 \<and> run ls s0 = Inr s \<and> main s = M_ready \<longrightarrow>
      workers s = [] \<and>
      JobQueue_waitOnJobs (queue s) = ([Lock, Unlock], M_done, (queue s)\<lparr>acceptingJobs := 0\<rparr>) \<and>
      step WaitOnJobs s = Inr (s\<lparr>queue := (queue s)\<lparr>acceptingJobs := 0\<rparr>, main := M_done\<rparr>))"
proof -
  have A: "JobQueue_new (Some u) m_thread 0 =
     Inr \<lparr>todo = [], acceptingJobs = 1, threadsStopped = 0, nthreads = 0,
          thread = map_option (\<lambda>_. []) m_thread\<rparr>"
    by (simp add: JobQueue_new_def)
  have B: "\<exists>s0. start (Some u) m_thread 0 m0 = Inr s0 \<and> workers s0 = []"
    by (cases m_thread) (simp_all add: start_def JobQueue_new_def)
  have C: "workers s = [] \<and>
      JobQueue_waitOnJobs (queue s) = ([Lock, Unlock], M_done, (queue s)\<lparr>acceptingJobs := 0\<rparr>) \<and>
      step WaitOnJobs s = Inr (s\<lparr>queue := (queue s)\<lparr>acceptingJobs := 0\<rparr>, main := M_done\<rparr>)"
    if r: "start (Some u) m_thread 0 m0 = Inr s0 \<and> run ls s0 = Inr s \<and> main s = M_ready"
  proof -
    from r have I: "inv 0 m0 s" by (intro inv_reach [of "Some u" m_thread 0 m0 s0 ls]) simp_all
    then have f: "nthreads (queue s) = 0" "length (workers s) = 0"
      "threadsStopped (queue s) = int (stopped (workers s))"
      by (simp_all add: inv_def)
    with stopped_le [of "workers s"] have "threadsStopped (queue s) = 0" by simp
    with f r show ?thesis
      by (simp add: JobQueue_waitOnJobs_def waitOnJobs_while_def)
  qed
  show ?thesis
    apply (rule conjI)
     apply (rule A)
    apply (rule conjI)
     apply (rule B)
    apply (rule impI)
    apply (erule C)
    done
qed

theorem zero_threads_witness:
  "start (Some ()) (Some ()) 0 test_mem = Inr test_none \<and>
   run [AddJob (Some ()) jobfunc 0, Worker 0] test_none = Inr test_none_job \<and>
   main test_none_job = M_ready \<and> workers test_none_job = [] \<and>
   JobQueue_waitOnJobs (queue test_none_job) =
     ([Lock, Unlock], M_done, (queue test_none_job)\<lparr>acceptingJobs := 0\<rparr>) \<and>
   step WaitOnJobs test_none_job =
     Inr (test_none_job\<lparr>queue := (queue test_none_job)\<lparr>acceptingJobs := 0\<rparr>, main := M_done\<rparr>)"
proof -
  note T = zero_threads [of "()" "Some ()" test_mem test_none
      "[AddJob (Some ()) jobfunc 0, Worker 0]" test_none_job]
  have r: "main test_none_job = M_ready" by (simp add: test_none_job_def test_none_def)
  note p = T [THEN conjunct2, THEN conjunct2, THEN mp,
    OF conjI [OF test_none_eq conjI [OF test_none_job_eq r]]]
  show ?thesis
    by (intro conjI)
      (fact test_none_eq test_none_job_eq r p [THEN conjunct1] p [THEN conjunct2, THEN conjunct1]
         p [THEN conjunct2, THEN conjunct2])+
qed

end
